theory Spec2Isabelle
  imports Main "HOL-Library.Word"
begin

section \<open>Frames and errors\<close>

text \<open>
  The program is a pipeline of elements that pass video frames along: a source, a
  display, a pattern detector and an asynchronous queue. A pixel is a \<^verbatim>\<open>uint8_t\<close>,
  a frame carries its width and height (both \<^verbatim>\<open>uint8_t\<close>) and a vector of rows.
\<close>

record VideoFrame =
  m_width :: "8 word"
  m_height :: "8 word"
  m_pixels :: "8 word list list"

text \<open>
  What the C++ leaves undefined or never finishes is a value of the model:
  \<open>OutOfRange\<close> is a read or write past the end of a vector, \<open>CounterWraps\<close> is a loop
  whose 8-bit counter wraps around before it reaches its bound (the loop cannot exit
  normally), \<open>DivisionByZero\<close> is an integer division by 0.
\<close>

datatype error = OutOfRange | CounterWraps | DivisionByZero


section \<open>Elements and the default propagation (classes Element, BaseElement)\<close>

text \<open>
  An element has a list \<^verbatim>\<open>m_nextElements\<close> of pointers to the elements linked after
  it. The graph that is propagated through is acyclic; a pointer is modelled by the
  element it points to, so an element is a tree. \<open>elemId\<close> stands for the address of the
  object, \<open>elemKind\<close> for its dynamic class, which decides the virtual calls.
\<close>

datatype kind = VideoSourceKind | DisplayKind | DetectorKind | AsynchronousQueueKind

datatype element =
  Element (elemId: nat) (elemKind: kind) (m_nextElements: "element list")

text \<open>
  The calls are observed as a trace: the begin and the end of each call of
  \<^verbatim>\<open>process\<close> and of \<^verbatim>\<open>processAndPushDownstream\<close>, with the element called and
  the frame passed.
\<close>

datatype 'f event =
  ProcessBegin nat 'f | ProcessEnd nat 'f | PushBegin nat 'f | PushEnd nat 'f

text \<open>
  \<^verbatim>\<open>BaseElement::link\<close>: \<^verbatim>\<open>m_nextElements.push_back(element); return element;\<close>
  The result is the element with its new list, and the linked element.
\<close>

definition link :: "element \<Rightarrow> element \<Rightarrow> element \<times> element" where
  "link this element =
     (Element (elemId this) (elemKind this) (m_nextElements this @ [element]), element)"

text \<open>Linking several elements to the same one, one call of \<open>link\<close> after the other.\<close>

definition linkAll :: "element \<Rightarrow> element list \<Rightarrow> element" where
  "linkAll this elements = foldl (\<lambda>e element. fst (link e element)) this elements"

text \<open>
  \<^verbatim>\<open>process\<close> and \<^verbatim>\<open>processAndPushDownstream\<close> as the calling thread runs them.
  \<^verbatim>\<open>VideoSourceElement::process\<close> calls \<^verbatim>\<open>processAndPushDownstream\<close>; the display
  prints, the detector marks the frame and the queue stores it, none of them calling
  another element. \<^verbatim>\<open>BaseElement::processAndPushDownstream\<close> runs over
  \<^verbatim>\<open>m_nextElements\<close> from begin to end and calls \<^verbatim>\<open>process\<close>, then
  \<^verbatim>\<open>processAndPushDownstream\<close>, on each; \<^verbatim>\<open>AsynchronousQueue\<close> overrides it
  with an empty body.
\<close>

fun Element_process :: "element \<Rightarrow> 'f \<Rightarrow> 'f event list"
  and processAndPushDownstream :: "element \<Rightarrow> 'f \<Rightarrow> 'f event list" where
  "Element_process (Element n k nexts) videoFrame =
     (case k of
        VideoSourceKind \<Rightarrow>
          [ProcessBegin n videoFrame]
            @ processAndPushDownstream (Element n k nexts) videoFrame
            @ [ProcessEnd n videoFrame]
      | _ \<Rightarrow> [ProcessBegin n videoFrame, ProcessEnd n videoFrame])"
| "processAndPushDownstream (Element n k nexts) videoFrame =
     (case k of
        AsynchronousQueueKind \<Rightarrow> [PushBegin n videoFrame, PushEnd n videoFrame]
      | _ \<Rightarrow>
          [PushBegin n videoFrame]
            @ concat (map (\<lambda>element. Element_process element videoFrame
                                      @ processAndPushDownstream element videoFrame) nexts)
            @ [PushEnd n videoFrame])"


section \<open>The video source (class VideoSourceElement)\<close>

text \<open>
  The members of the source that the timing depends on. The constructor copies its three
  arguments and clears the running flag; it has no other statement.
\<close>

record VideoSourceElement =
  m_width_src :: "8 word"
  m_height_src :: "8 word"
  m_frameRate :: "8 word"
  m_runningState_src :: bool

definition newVideoSourceElement ::
  "8 word \<Rightarrow> 8 word \<Rightarrow> 8 word \<Rightarrow> VideoSourceElement" where
  "newVideoSourceElement width height frameRate =
     \<lparr>m_width_src = width, m_height_src = height, m_frameRate = frameRate,
      m_runningState_src = False\<rparr>"

text \<open>\<^verbatim>\<open>start()\<close>: set the running flag and run the generator in a thread.\<close>

definition VideoSourceElement_start :: "VideoSourceElement \<Rightarrow> VideoSourceElement" where
  "VideoSourceElement_start s =
     (if \<not> m_runningState_src s then s\<lparr>m_runningState_src := True\<rparr> else s)"

text \<open>
  \<^verbatim>\<open>RandomVideoFramesGenerator\<close>: while the running flag is set, push one frame and
  sleep \<^verbatim>\<open>1000 / m_frameRate\<close> milliseconds. The loop has no exit of its own, so the
  model observes its first \<open>n\<close> iterations and returns the durations slept; the division
  is C++ \<^verbatim>\<open>int\<close> division of 1000 by the promoted 8-bit value.
\<close>

fun RandomVideoFramesGenerator :: "nat \<Rightarrow> VideoSourceElement \<Rightarrow> error + nat list" where
  "RandomVideoFramesGenerator 0 s = Inr []"
| "RandomVideoFramesGenerator (Suc n) s =
     (if m_runningState_src s
      then (if unat (m_frameRate s) = 0 then Inl DivisionByZero
            else (case RandomVideoFramesGenerator n s of
                    Inl e \<Rightarrow> Inl e
                  | Inr delays \<Rightarrow> Inr (1000 div unat (m_frameRate s) # delays)))
      else Inr [])"


section \<open>The pattern detector (class DetectorElement)\<close>

text \<open>
  \<^verbatim>\<open>std::equal(first1, last1, first2)\<close>: compare the first range with what starts at
  \<open>first2\<close>, cell by cell, and stop at the first difference. The second argument here is
  the rest of the row from \<open>first2\<close> on; running off its end is an out-of-range read.
\<close>

fun equal_range :: "8 word list \<Rightarrow> 8 word list \<Rightarrow> error + bool" where
  "equal_range [] ys = Inr True"
| "equal_range (x # xs) [] = Inl OutOfRange"
| "equal_range (x # xs) (y # ys) = (if x = y then equal_range xs ys else Inr False)"

text \<open>\<^verbatim>\<open>equal(patternRow.begin(), patternRow.end(), row.begin() + i)\<close>\<close>

definition equalAt :: "8 word list \<Rightarrow> 8 word list \<Rightarrow> nat \<Rightarrow> error + bool" where
  "equalAt patternRow row i =
     (if length row < i then Inl OutOfRange else equal_range patternRow (drop i row))"

text \<open>
  The loop over the pattern rows \<open>k = 1, 2, \<dots>\<close> at the anchor \<open>(j, i)\<close>: compare
  pattern row \<open>k\<close> with row \<open>j + k\<close> of \<open>pixels\<close> from column \<open>i\<close>, and break at the
  first row that differs. It is entered with \<open>found\<close> true.
\<close>

function nextRowsFound ::
  "8 word list list \<Rightarrow> 8 word list list \<Rightarrow> nat \<Rightarrow> nat \<Rightarrow> nat \<Rightarrow> error + bool" where
  "nextRowsFound m_patternToDetect pixels j i k =
     (if k < length m_patternToDetect
      then (if length pixels \<le> j + k then Inl OutOfRange
            else (case equalAt (m_patternToDetect ! k) (pixels ! (j + k)) i of
                    Inl e \<Rightarrow> Inl e
                  | Inr found \<Rightarrow>
                      if \<not> found then Inr False
                      else nextRowsFound m_patternToDetect pixels j i (Suc k)))
      else Inr True)"
  by pat_completeness auto
termination
  by (relation "measure (\<lambda>(p, pixels, j, i, k). length p - k)") auto

declare nextRowsFound.simps [simp del]

text \<open>
  The test made at one anchor \<open>(j, i)\<close>: the first pattern row against row \<open>j\<close>, and if
  it is found there, the other pattern rows. Its result is the value of \<open>found\<close> that
  decides whether the match is reported and marked.
\<close>

definition patternFoundAt ::
  "8 word list list \<Rightarrow> 8 word list list \<Rightarrow> nat \<Rightarrow> nat \<Rightarrow> error + bool" where
  "patternFoundAt m_patternToDetect pixels j i =
     (case equalAt (m_patternToDetect ! 0) (pixels ! j) i of
        Inl e \<Rightarrow> Inl e
      | Inr found \<Rightarrow>
          if found then nextRowsFound m_patternToDetect pixels j i 1 else Inr False)"

text \<open>
  \<^verbatim>\<open>markPattern\<close>, inner loop: for \<open>h\<close> from \<open>xPosition\<close> while
  \<open>h < xPosition + m_patternToDetect[0].size()\<close>, a cell of row \<open>k\<close> that is above 0
  becomes 2. \<open>framePixels\<close> is the vector \<^verbatim>\<open>videoFrame->m_pixels\<close> being written.
\<close>

function markPatternCols ::
  "8 word list list \<Rightarrow> 8 word list list \<Rightarrow> 8 word \<Rightarrow> nat \<Rightarrow> nat
    \<Rightarrow> error + 8 word list list" where
  "markPatternCols m_patternToDetect framePixels xPosition k h =
     (if h < unat xPosition + length (m_patternToDetect ! 0)
      then (if length framePixels \<le> k \<or> length (framePixels ! k) \<le> h then Inl OutOfRange
            else markPatternCols m_patternToDetect
                   (framePixels[k := (framePixels ! k)
                      [h := (if framePixels ! k ! h > 0 then 2 else framePixels ! k ! h)]])
                   xPosition k (Suc h))
      else Inr framePixels)"
  by pat_completeness auto
termination
  by (relation "measure (\<lambda>(p, px, x, k, h). unat x + length (p ! 0) - h)") auto

declare markPatternCols.simps [simp del]

text \<open>
  \<^verbatim>\<open>markPattern\<close>, outer loop: for \<open>k\<close> from \<open>yPosition\<close> while
  \<open>k < yPosition + m_patternToDetect.size()\<close>.
\<close>

function markPatternRows ::
  "8 word list list \<Rightarrow> 8 word list list \<Rightarrow> 8 word \<Rightarrow> 8 word \<Rightarrow> nat
    \<Rightarrow> error + 8 word list list" where
  "markPatternRows m_patternToDetect framePixels xPosition yPosition k =
     (if k < unat yPosition + length m_patternToDetect
      then (case markPatternCols m_patternToDetect framePixels xPosition k (unat xPosition) of
              Inl e \<Rightarrow> Inl e
            | Inr marked \<Rightarrow>
                markPatternRows m_patternToDetect marked xPosition yPosition (Suc k))
      else Inr framePixels)"
  by pat_completeness auto
termination
  by (relation "measure (\<lambda>(p, px, x, y, k). unat y + length p - k)") auto

declare markPatternRows.simps [simp del]

text \<open>
  \<^verbatim>\<open>markPattern(videoFrame, xPosition, yPosition)\<close>. The two positions are
  \<^verbatim>\<open>uint8_t\<close> parameters and the loop counters \<open>k\<close> and \<open>h\<close> take that type
  (\<^verbatim>\<open>auto k = yPosition\<close>), while the bounds are computed in \<^verbatim>\<open>size_t\<close>. A bound above
  255 is never reached by the counter, which wraps to 0; up to 255 the counters behave
  as the natural numbers of the two loops above.
\<close>

definition markPattern ::
  "8 word list list \<Rightarrow> 8 word list list \<Rightarrow> 8 word \<Rightarrow> 8 word \<Rightarrow> error + 8 word list list" where
  "markPattern m_patternToDetect framePixels xPosition yPosition =
     (if 255 < unat yPosition + length m_patternToDetect
         \<or> (m_patternToDetect \<noteq> [] \<and> 255 < unat xPosition + length (m_patternToDetect ! 0))
      then Inl CounterWraps
      else markPatternRows m_patternToDetect framePixels xPosition yPosition (unat yPosition))"

text \<open>
  The scan of row \<open>j\<close>: for \<open>i\<close> from 0 while \<open>i < raw.size() - raw_pattern.size()\<close>.
  The state \<open>st\<close> is the pair of the frame's pixels as marked so far and the anchors
  reported so far (the lines \<^verbatim>\<open>PATTERN FOUND AT POSITION\<close> written to the output).
  The comparisons read \<open>pixels\<close>, the copy of the frame's pixels made when
  \<^verbatim>\<open>checkPatternAndMarkExistingPatterns\<close> was entered; \<^verbatim>\<open>markPattern\<close> writes to
  the frame, and gets \<open>i\<close> and \<open>j\<close> converted to \<^verbatim>\<open>uint8_t\<close>.
\<close>

function scanCols ::
  "8 word list list \<Rightarrow> 8 word list list \<Rightarrow> nat \<Rightarrow> nat
    \<Rightarrow> 8 word list list \<times> (nat \<times> nat) list
    \<Rightarrow> error + 8 word list list \<times> (nat \<times> nat) list" where
  "scanCols m_patternToDetect pixels j i st =
     (if i < length (pixels ! j) - length (m_patternToDetect ! 0)
      then (case patternFoundAt m_patternToDetect pixels j i of
              Inl e \<Rightarrow> Inl e
            | Inr found \<Rightarrow>
                if found
                then (case markPattern m_patternToDetect (fst st) (of_nat i) (of_nat j) of
                        Inl e \<Rightarrow> Inl e
                      | Inr marked \<Rightarrow>
                          scanCols m_patternToDetect pixels j (Suc i)
                            (marked, snd st @ [(j, i)]))
                else scanCols m_patternToDetect pixels j (Suc i) st)
      else Inr st)"
  by pat_completeness auto
termination
  by (relation "measure (\<lambda>(p, pixels, j, i, st). length (pixels ! j) - length (p ! 0) - i)")
     auto

declare scanCols.simps [simp del]

text \<open>
  The scan of the rows: for \<open>j\<close> from 0 while \<open>j < pixels.size() - m_patternToDetect.size()\<close>.
  The column bound \<open>raw.size() - raw_pattern.size()\<close> is a \<^verbatim>\<open>size_t\<close> difference: for a
  row shorter than the pattern it wraps to a huge value and the column scan runs off the
  row.
\<close>

function scanRows ::
  "8 word list list \<Rightarrow> 8 word list list \<Rightarrow> nat
    \<Rightarrow> 8 word list list \<times> (nat \<times> nat) list
    \<Rightarrow> error + 8 word list list \<times> (nat \<times> nat) list" where
  "scanRows m_patternToDetect pixels j st =
     (if j < length pixels - length m_patternToDetect
      then (if length (pixels ! j) < length (m_patternToDetect ! 0) then Inl OutOfRange
            else (case scanCols m_patternToDetect pixels j 0 st of
                    Inl e \<Rightarrow> Inl e
                  | Inr st' \<Rightarrow> scanRows m_patternToDetect pixels (Suc j) st'))
      else Inr st)"
  by pat_completeness auto
termination
  by (relation "measure (\<lambda>(p, pixels, j, st). length pixels - length p - j)") auto

declare scanRows.simps [simp del]

text \<open>
  \<^verbatim>\<open>checkPatternAndMarkExistingPatterns\<close>: copy the pixels, return at once when the
  frame has fewer rows than the pattern or its first row is shorter than the pattern's
  first row, otherwise scan. The second test reads \<^verbatim>\<open>pixels[0]\<close> and
  \<^verbatim>\<open>m_patternToDetect[0]\<close>; it is reached with an empty pattern only. The result is
  the frame after the call and the anchors \<open>(j, i)\<close> reported, in order.
\<close>

definition checkPatternAndMarkExistingPatterns ::
  "8 word list list \<Rightarrow> VideoFrame \<Rightarrow> error + VideoFrame \<times> (nat \<times> nat) list" where
  "checkPatternAndMarkExistingPatterns m_patternToDetect videoFrame =
     (let pixels = m_pixels videoFrame
      in if length pixels < length m_patternToDetect then Inr (videoFrame, [])
         else if m_patternToDetect = [] then Inl OutOfRange
         else if length (pixels ! 0) < length (m_patternToDetect ! 0) then Inr (videoFrame, [])
         else (case scanRows m_patternToDetect pixels 0 (pixels, []) of
                 Inl e \<Rightarrow> Inl e
               | Inr (marked, found) \<Rightarrow> Inr (videoFrame\<lparr>m_pixels := marked\<rparr>, found)))"

text \<open>\<^verbatim>\<open>DetectorElement::process\<close> calls the function above on the frame.\<close>

definition DetectorElement_process ::
  "8 word list list \<Rightarrow> VideoFrame \<Rightarrow> error + VideoFrame \<times> (nat \<times> nat) list" where
  "DetectorElement_process m_patternToDetect videoFrame =
     checkPatternAndMarkExistingPatterns m_patternToDetect videoFrame"

text \<open>The pattern that \<^verbatim>\<open>main\<close> gives to the detector.\<close>

definition mainPattern :: "8 word list list" where
  "mainPattern = [[0, 1, 0], [1, 1, 1], [0, 1, 0], [1, 0, 1]]"

text \<open>
  The inputs the detector is meant for. A frame made by \<^verbatim>\<open>GenerateVideoFrame\<close> has
  \<open>m_height\<close> rows of \<open>m_width\<close> cells each; a pattern is a non-empty grid whose rows
  all have the length of the first.
\<close>

definition frameInvariant :: "VideoFrame \<Rightarrow> bool" where
  "frameInvariant f \<longleftrightarrow>
     length (m_pixels f) = unat (m_height f)
     \<and> (\<forall>row\<in>set (m_pixels f). length row = unat (m_width f))"

definition rectangular :: "8 word list list \<Rightarrow> bool" where
  "rectangular p \<longleftrightarrow> p \<noteq> [] \<and> (\<forall>row\<in>set p. length row = length (p ! 0))"

text \<open>
  The anchors that the two scan loops visit, in the order they visit them: none when the
  call returns at once, otherwise \<open>j\<close> below the row bound and, in row \<open>j\<close>, \<open>i\<close>
  below the column bound.
\<close>

definition examinedAnchors :: "8 word list list \<Rightarrow> 8 word list list \<Rightarrow> (nat \<times> nat) list" where
  "examinedAnchors p pixels =
     (if length pixels < length p \<or> length (pixels ! 0) < length (p ! 0) then []
      else concat (map (\<lambda>j. map (Pair j) [0..<length (pixels ! j) - length (p ! 0)])
                       [0..<length pixels - length p]))"


section \<open>The asynchronous queue (class AsynchronousQueue)\<close>

text \<open>
  The state of one \<^verbatim>\<open>AsynchronousQueue\<close> object. The fields keep the names of the class
  members. A queued entry is a \<^verbatim>\<open>shared_ptr<VideoFrame>\<close>; the queue code never looks
  inside a frame, so the entry type is the parameter \<open>'f\<close>. \<open>forwarded\<close> is a history
  field that the class does not have: it lists, in order, the frames that the worker
  thread handed to the downstream elements (the \<^verbatim>\<open>for_each\<close> over \<^verbatim>\<open>m_nextElements\<close>
  in \<^verbatim>\<open>waitForNewVideoFrame\<close>).
\<close>

record 'f AsynchronousQueue =
  m_runningState :: bool
  m_startedState :: bool
  m_videoFramesQueue :: "'f list"
  m_queueMaxSize :: "8 word"
  forwarded :: "'f list"

text \<open>The constructor: both flags false, an empty queue, the given maximum size.\<close>

definition newAsynchronousQueue :: "8 word \<Rightarrow> 'f AsynchronousQueue" where
  "newAsynchronousQueue queueMaxSize =
     \<lparr>m_runningState = False, m_startedState = False, m_videoFramesQueue = [],
      m_queueMaxSize = queueMaxSize, forwarded = []\<rparr>"

text \<open>\<^verbatim>\<open>start()\<close>: the first call sets both flags and creates the worker thread.\<close>

definition start :: "'f AsynchronousQueue \<Rightarrow> 'f AsynchronousQueue" where
  "start s =
     (if \<not> m_startedState s then s\<lparr>m_startedState := True, m_runningState := True\<rparr> else s)"

text \<open>
  \<^verbatim>\<open>checkQueueSizeConstraint(maxSize)\<close>: while the queue holds more than \<open>maxSize\<close>
  frames, pop the front one.
\<close>

function checkQueueSizeConstraint ::
  "8 word \<Rightarrow> 'f AsynchronousQueue \<Rightarrow> 'f AsynchronousQueue" where
  "checkQueueSizeConstraint maxSize s =
     (if length (m_videoFramesQueue s) > unat maxSize
      then checkQueueSizeConstraint maxSize
             (s\<lparr>m_videoFramesQueue := tl (m_videoFramesQueue s)\<rparr>)
      else s)"
  by pat_completeness auto
termination
  by (relation "measure (\<lambda>(maxSize, s). length (m_videoFramesQueue s))") auto

declare checkQueueSizeConstraint.simps [simp del]

text \<open>
  \<^verbatim>\<open>pushNewVideoFrame\<close>: nothing at all when the maximum size is 0; otherwise the size
  check first, then the push at the back.
\<close>

definition pushNewVideoFrame :: "'f AsynchronousQueue \<Rightarrow> 'f \<Rightarrow> 'f AsynchronousQueue" where
  "pushNewVideoFrame s newVideoFrame =
     (if m_queueMaxSize s > 0
      then (let s' = checkQueueSizeConstraint (m_queueMaxSize s) s
            in s'\<lparr>m_videoFramesQueue := m_videoFramesQueue s' @ [newVideoFrame]\<rparr>)
      else s)"

text \<open>\<^verbatim>\<open>AsynchronousQueue::process\<close>: \<^verbatim>\<open>start(); pushNewVideoFrame(videoFrame);\<close>\<close>

definition process :: "'f AsynchronousQueue \<Rightarrow> 'f \<Rightarrow> 'f AsynchronousQueue" where
  "process s videoFrame = pushNewVideoFrame (start s) videoFrame"

text \<open>
  The predicate given to \<^verbatim>\<open>m_queueCv.wait\<close>: the lambda returns
  \<^verbatim>\<open>m_videoFramesQueue.size()\<close>, read as a boolean. The worker leaves the wait only when
  it evaluates to true.
\<close>

definition waitPredicate :: "'f AsynchronousQueue \<Rightarrow> bool" where
  "waitPredicate s = (length (m_videoFramesQueue s) \<noteq> 0)"

text \<open>
  The inner \<^verbatim>\<open>while (m_videoFramesQueue.size())\<close> loop of the worker: pop the front
  frame; leave the loop if the running flag is false; otherwise hand the frame to the
  downstream elements. The producer does not run in between: the properties below are
  about frames enqueued before the worker dequeues any.
\<close>

function drainQueue :: "'f AsynchronousQueue \<Rightarrow> 'f AsynchronousQueue" where
  "drainQueue s =
     (if length (m_videoFramesQueue s) \<noteq> 0
      then (let newVideoFrame = hd (m_videoFramesQueue s);
                s1 = s\<lparr>m_videoFramesQueue := tl (m_videoFramesQueue s)\<rparr>
            in if \<not> m_runningState s1 then s1
               else drainQueue (s1\<lparr>forwarded := forwarded s1 @ [newVideoFrame]\<rparr>))
      else s)"
  by pat_completeness auto
termination
  by (relation "measure (\<lambda>s. length (m_videoFramesQueue s))") auto

declare drainQueue.simps [simp del]

text \<open>
  Where the worker thread ends up when nobody else touches the queue: suspended in the
  wait, or returned from \<^verbatim>\<open>waitForNewVideoFrame\<close>.
\<close>

datatype worker = Waiting | Exited

text \<open>
  \<^verbatim>\<open>waitForNewVideoFrame\<close>, the body of the worker thread:
  \<^verbatim>\<open>do { wait(predicate); drain } while (m_runningState)\<close>, from the wait onwards.
  It terminates because a drain of a non-empty queue leaves the queue shorter.
\<close>

function waitForNewVideoFrame ::
  "'f AsynchronousQueue \<Rightarrow> worker \<times> 'f AsynchronousQueue" where
  "waitForNewVideoFrame s =
     (if \<not> waitPredicate s then (Waiting, s)
      else (let s' = drainQueue s
            in if m_runningState s' then waitForNewVideoFrame s' else (Exited, s')))"
  by pat_completeness auto
termination
proof -
  have shorter: "length (m_videoFramesQueue (drainQueue t)) < length (m_videoFramesQueue t)"
    if "m_videoFramesQueue t \<noteq> []" for t :: "'a AsynchronousQueue"
    using that
  proof (induction t rule: drainQueue.induct)
    case (1 s)
    show ?case
    proof (cases "m_runningState s")
      case False
      with 1(2) show ?thesis by (subst drainQueue.simps) (simp add: Let_def)
    next
      case True
      show ?thesis
      proof (cases "tl (m_videoFramesQueue s) = []")
        case True
        with 1(2) \<open>m_runningState s\<close> show ?thesis
          by (subst drainQueue.simps, subst drainQueue.simps) (simp add: Let_def)
      next
        case False
        with 1 \<open>m_runningState s\<close> show ?thesis
          by (subst drainQueue.simps) (fastforce simp add: Let_def)
      qed
    qed
  qed
  show ?thesis
    by (relation "measure (\<lambda>s. length (m_videoFramesQueue s))")
       (auto simp: waitPredicate_def shorter)
qed

declare waitForNewVideoFrame.simps [simp del]

text \<open>
  The destructor: clear the running flag, \<^verbatim>\<open>notify_all\<close> (the worker evaluates its wait
  predicate again), join the worker if the thread was created, then
  \<^verbatim>\<open>checkQueueSizeConstraint(0)\<close>. A join on a worker that stays in the wait never
  returns: the result is \<open>None\<close>.
\<close>

definition destroyAsynchronousQueue ::
  "'f AsynchronousQueue \<Rightarrow> 'f AsynchronousQueue option" where
  "destroyAsynchronousQueue s =
     (let s1 = s\<lparr>m_runningState := False\<rparr>
      in if m_startedState s1
         then (case waitForNewVideoFrame s1 of
                 (Exited, s2) \<Rightarrow> Some (checkQueueSizeConstraint 0 s2)
               | (Waiting, s2) \<Rightarrow> None)
         else Some (checkQueueSizeConstraint 0 s1))"

text \<open>
  A run of the relay: the producer calls \<open>process\<close>, and in between the worker thread
  may get the lock and run from its wait (only once the thread exists).
\<close>

datatype 'f action = Process 'f | WorkerRuns

fun relayStep :: "'f AsynchronousQueue \<Rightarrow> 'f action \<Rightarrow> 'f AsynchronousQueue" where
  "relayStep s (Process videoFrame) = process s videoFrame"
| "relayStep s WorkerRuns = (if m_startedState s then snd (waitForNewVideoFrame s) else s)"


section \<open>Notions used in the proofs about the detector\<close>

text \<open>
  The loops of the detector are characterised by closed forms: what one marking does
  to a cell, to a range of a row and to a rectangle of the grid, which rows and anchors
  match, and which cells an anchor covers.
\<close>

definition markPixel :: "8 word \<Rightarrow> 8 word" where
  "markPixel v = (if v > 0 then 2 else v)"

definition markRange :: "nat \<Rightarrow> nat \<Rightarrow> 8 word list \<Rightarrow> 8 word list" where
  "markRange a b row =
     map (\<lambda>c. if a \<le> c \<and> c < b then markPixel (row ! c) else row ! c) [0..<length row]"

definition markFoot ::
  "nat \<Rightarrow> nat \<Rightarrow> nat \<Rightarrow> nat \<Rightarrow> 8 word list list \<Rightarrow> 8 word list list" where
  "markFoot r0 r1 c0 c1 px =
     map (\<lambda>r. if r0 \<le> r \<and> r < r1 then markRange c0 c1 (px ! r) else px ! r) [0..<length px]"

definition markAt ::
  "8 word list list \<Rightarrow> nat \<times> nat \<Rightarrow> 8 word list list \<Rightarrow> 8 word list list" where
  "markAt p a px = markFoot (fst a) (fst a + length p) (snd a) (snd a + length (p ! 0)) px"

definition grid :: "nat \<Rightarrow> nat \<Rightarrow> 8 word list list \<Rightarrow> bool" where
  "grid H W px \<longleftrightarrow> length px = H \<and> (\<forall>r<H. length (px ! r) = W)"

definition rowMatches ::
  "8 word list list \<Rightarrow> 8 word list list \<Rightarrow> nat \<Rightarrow> nat \<Rightarrow> nat \<Rightarrow> bool" where
  "rowMatches p pixels j i k \<longleftrightarrow> p ! k = take (length (p ! k)) (drop i (pixels ! (j + k)))"

definition fullMatch :: "8 word list list \<Rightarrow> 8 word list list \<Rightarrow> nat \<Rightarrow> nat \<Rightarrow> bool" where
  "fullMatch p pixels j i \<longleftrightarrow> (\<forall>k<length p. rowMatches p pixels j i k)"

definition rowMatchesOf ::
  "8 word list list \<Rightarrow> 8 word list list \<Rightarrow> nat \<Rightarrow> nat \<Rightarrow> nat \<Rightarrow> (nat \<times> nat) list" where
  "rowMatchesOf p px W j i =
     map (Pair j) (filter (fullMatch p px j) [i..<W - length (p ! 0)])"

definition matchesFrom ::
  "8 word list list \<Rightarrow> 8 word list list \<Rightarrow> nat \<Rightarrow> nat \<Rightarrow> nat \<Rightarrow> (nat \<times> nat) list" where
  "matchesFrom p px H W j =
     concat (map (\<lambda>j. rowMatchesOf p px W j 0) [j..<H - length p])"

definition covers :: "8 word list list \<Rightarrow> nat \<times> nat \<Rightarrow> nat \<Rightarrow> nat \<Rightarrow> bool" where
  "covers p a r c \<longleftrightarrow>
     fst a \<le> r \<and> r < fst a + length p \<and> snd a \<le> c \<and> c < snd a + length (p ! 0)"


section \<open>Order of the default propagation\<close>

lemma link_fields [simp]:
  "m_nextElements (fst (link this element)) = m_nextElements this @ [element]"
  "elemId (fst (link this element)) = elemId this"
  "elemKind (fst (link this element)) = elemKind this"
  by (simp_all add: link_def)

lemma linkAll_fields:
  "m_nextElements (linkAll this elements) = m_nextElements this @ elements
   \<and> elemId (linkAll this elements) = elemId this
   \<and> elemKind (linkAll this elements) = elemKind this"
  unfolding linkAll_def
  by (induction elements arbitrary: this) simp_all

lemma processAndPushDownstream_default:
  "elemKind this \<noteq> AsynchronousQueueKind \<Longrightarrow>
   processAndPushDownstream this videoFrame =
     [PushBegin (elemId this) videoFrame]
       @ concat (map (\<lambda>element. Element_process element videoFrame
                                 @ processAndPushDownstream element videoFrame)
                     (m_nextElements this))
       @ [PushEnd (elemId this) videoFrame]"
  by (cases this) (simp split: kind.splits)

lemma call_block_shape:
  "\<exists>body. Element_process element videoFrame @ processAndPushDownstream element videoFrame
          = ProcessBegin (elemId element) videoFrame # body @ [PushEnd (elemId element) videoFrame]"
proof (cases element)
  case (Element n k nexts)
  show ?thesis
  proof (cases "k = AsynchronousQueueKind")
    case True
    with Element show ?thesis by simp
  next
    case False
    then have "\<exists>t. processAndPushDownstream element videoFrame = t @ [PushEnd n videoFrame]"
      using Element by (cases k) simp_all
    moreover have "\<exists>t. Element_process element videoFrame = ProcessBegin n videoFrame # t"
      using Element by (cases k) simp_all
    ultimately show ?thesis using Element by auto
  qed
qed

text \<open>
  Claim C9. For an element with the default \<^verbatim>\<open>processAndPushDownstream\<close> (every class
  but the queue) and any frame: after \<open>elements\<close> have been linked to it one by one, the
  trace of the call is, between its own begin and end, one block per downstream element
  in the order of linking, the elements linked earlier first. Each block is the
  \<^verbatim>\<open>process\<close> call of that element followed by its \<^verbatim>\<open>processAndPushDownstream\<close>
  call: it opens with the begin of \<^verbatim>\<open>process\<close> and closes with the end of
  \<^verbatim>\<open>processAndPushDownstream\<close>, so for a source linked to A and then B everything
  called on A has returned before \<^verbatim>\<open>process\<close> is called on B.
\<close>

theorem fan_out_in_link_order:
  "elemKind this \<noteq> AsynchronousQueueKind \<Longrightarrow>
   processAndPushDownstream (linkAll this elements) videoFrame =
     [PushBegin (elemId this) videoFrame]
       @ concat (map (\<lambda>element. Element_process element videoFrame
                                 @ processAndPushDownstream element videoFrame)
                     (m_nextElements this @ elements))
       @ [PushEnd (elemId this) videoFrame]
   \<and> (\<forall>element. \<exists>body.
         Element_process element videoFrame @ processAndPushDownstream element videoFrame
           = ProcessBegin (elemId element) videoFrame # body
               @ [PushEnd (elemId element) videoFrame])"
  using processAndPushDownstream_default [of "linkAll this elements" videoFrame]
    linkAll_fields [of this elements] call_block_shape [of _ videoFrame]
  by simp

text \<open>
  A source 0 linked to a detector 1 (which has a display 2 after it) and then to a display
  3, for the frame 7: all calls below element 1 come before the first call on element 3.
\<close>

theorem fan_out_in_link_order_witness:
  "elemKind (Element 0 VideoSourceKind []) \<noteq> AsynchronousQueueKind
   \<and> processAndPushDownstream
       (linkAll (Element 0 VideoSourceKind [])
          [Element 1 DetectorKind [Element 2 DisplayKind []], Element 3 DisplayKind []])
       (7::nat) =
     [PushBegin 0 7,
      ProcessBegin 1 7, ProcessEnd 1 7, PushBegin 1 7,
        ProcessBegin 2 7, ProcessEnd 2 7, PushBegin 2 7, PushEnd 2 7,
      PushEnd 1 7,
      ProcessBegin 3 7, ProcessEnd 3 7, PushBegin 3 7, PushEnd 3 7,
      PushEnd 0 7]"
proof -
  have k: "elemKind (Element 0 VideoSourceKind []) \<noteq> AsynchronousQueueKind" by simp
  from fan_out_in_link_order [OF k,
      of "[Element 1 DetectorKind [Element 2 DisplayKind []], Element 3 DisplayKind []]" "7::nat"]
  show ?thesis by simp
qed


section \<open>The frame rate of the source\<close>

lemma generator_delays:
  "m_runningState_src s \<Longrightarrow> m_frameRate s \<noteq> 0 \<Longrightarrow>
   RandomVideoFramesGenerator n s = Inr (replicate n (1000 div unat (m_frameRate s)))"
  by (induction n) (simp_all add: unat_eq_0)

text \<open>
  Claim C3 fails on the code. The constructor accepts the frame rate 0: the source is
  constructed, holds the frame rate 0, and once started its first iteration reaches the
  division \<^verbatim>\<open>1000 / m_frameRate\<close> with the divisor 0.
\<close>

theorem frameRate_zero_accepted_counterexample:
  "m_frameRate (newVideoSourceElement 20 25 0) = 0
   \<and> RandomVideoFramesGenerator 1 (VideoSourceElement_start (newVideoSourceElement 20 25 0))
       = Inl DivisionByZero"
  by code_simp

text \<open>
  Claim C3 as amended. The constructor validates nothing: it stores the frame rate it is
  given, whatever the value. For a frame rate other than 0 every iteration of the started
  generator sleeps \<open>1000 div frameRate\<close> milliseconds.
\<close>

theorem frameRate_stored_unvalidated:
  "m_frameRate (newVideoSourceElement width height frameRate) = frameRate
   \<and> (frameRate \<noteq> 0 \<longrightarrow>
        RandomVideoFramesGenerator n
          (VideoSourceElement_start (newVideoSourceElement width height frameRate))
        = Inr (replicate n (1000 div unat frameRate)))"
  by (simp add: generator_delays newVideoSourceElement_def VideoSourceElement_start_def)

theorem frameRate_stored_unvalidated_witness:
  "m_frameRate (newVideoSourceElement 20 25 10) = 10
   \<and> (10::8 word) \<noteq> 0
   \<and> RandomVideoFramesGenerator 3 (VideoSourceElement_start (newVideoSourceElement 20 25 10))
       = Inr [100, 100, 100]"
  using frameRate_stored_unvalidated [of 20 25 10 3]
  by (simp add: numeral_3_eq_3)


section \<open>The loops of the detector in closed form\<close>

lemma equal_range_take:
  "length xs \<le> length ys \<Longrightarrow> equal_range xs ys = Inr (xs = take (length xs) ys)"
  by (induction xs ys rule: equal_range.induct) auto

lemma equalAt_inrange:
  "i + length patternRow \<le> length row \<Longrightarrow>
   equalAt patternRow row i = Inr (patternRow = take (length patternRow) (drop i row))"
  by (simp add: equalAt_def equal_range_take)

lemma nextRowsFound_pure:
  assumes "j + length p \<le> length pixels"
    and "\<forall>k<length p. i + length (p ! k) \<le> length (pixels ! (j + k))"
  shows "nextRowsFound p pixels j i k =
           Inr (\<forall>k'. k \<le> k' \<and> k' < length p \<longrightarrow> rowMatches p pixels j i k')"
  using assms
proof (induction p pixels j i k rule: nextRowsFound.induct)
  case (1 p pixels j i k)
  show ?case
  proof (cases "k < length p")
    case False
    then show ?thesis by (subst nextRowsFound.simps) auto
  next
    case True
    with 1(2) have inr: "\<not> length pixels \<le> j + k" by simp
    from True 1(3) have eq: "equalAt (p ! k) (pixels ! (j + k)) i = Inr (rowMatches p pixels j i k)"
      by (simp add: equalAt_inrange rowMatches_def)
    show ?thesis
    proof (cases "rowMatches p pixels j i k")
      case False
      with True inr eq show ?thesis
        by (subst nextRowsFound.simps) auto
    next
      case rm: True
      have "nextRowsFound p pixels j i (Suc k) =
              Inr (\<forall>k'. Suc k \<le> k' \<and> k' < length p \<longrightarrow> rowMatches p pixels j i k')"
        using 1(1) [OF True inr eq] rm 1(2,3) by simp
      moreover have "(\<forall>k'. Suc k \<le> k' \<and> k' < length p \<longrightarrow> rowMatches p pixels j i k')
                   = (\<forall>k'. k \<le> k' \<and> k' < length p \<longrightarrow> rowMatches p pixels j i k')"
      proof (intro iffI allI impI)
        fix k' assume a: "\<forall>k'. Suc k \<le> k' \<and> k' < length p \<longrightarrow> rowMatches p pixels j i k'"
          and b: "k \<le> k' \<and> k' < length p"
        show "rowMatches p pixels j i k'"
        proof (cases "k' = k")
          case True
          with rm show ?thesis by simp
        next
          case False
          with b have "Suc k \<le> k'" by arith
          with a b show ?thesis by blast
        qed
      next
        fix k' assume a: "\<forall>k'. k \<le> k' \<and> k' < length p \<longrightarrow> rowMatches p pixels j i k'"
          and b: "Suc k \<le> k' \<and> k' < length p"
        from b have "k \<le> k'" by arith
        with a b show "rowMatches p pixels j i k'" by blast
      qed
      ultimately show ?thesis using True inr eq rm
        by (subst nextRowsFound.simps) simp
    qed
  qed
qed

lemma patternFoundAt_pure:
  assumes "p \<noteq> []" "j + length p \<le> length pixels"
    and "\<forall>k<length p. i + length (p ! k) \<le> length (pixels ! (j + k))"
  shows "patternFoundAt p pixels j i = Inr (fullMatch p pixels j i)"
proof -
  from assms have eq: "equalAt (p ! 0) (pixels ! j) i = Inr (rowMatches p pixels j i 0)"
    using assms(3) [rule_format, of 0] by (simp add: equalAt_inrange rowMatches_def)
  have "(rowMatches p pixels j i 0 \<and> (\<forall>k'. 1 \<le> k' \<and> k' < length p \<longrightarrow> rowMatches p pixels j i k'))
        = fullMatch p pixels j i"
    unfolding fullMatch_def using assms(1)
    by (metis One_nat_def Suc_leI length_greater_0_conv not_gr_zero)
  then show ?thesis
    using eq nextRowsFound_pure [OF assms(2,3), of 1]
    by (auto simp: patternFoundAt_def)
qed

lemma markPixel_idem [simp]: "markPixel (markPixel v) = markPixel v"
  by (simp add: markPixel_def)

lemma length_markRange [simp]: "length (markRange a b row) = length row"
  by (simp add: markRange_def)

lemma nth_markRange:
  "c < length row \<Longrightarrow>
   markRange a b row ! c = (if a \<le> c \<and> c < b then markPixel (row ! c) else row ! c)"
  by (simp add: markRange_def)

lemma length_markFoot [simp]: "length (markFoot r0 r1 c0 c1 px) = length px"
  by (simp add: markFoot_def)

lemma nth_markFoot:
  "r < length px \<Longrightarrow>
   markFoot r0 r1 c0 c1 px ! r = (if r0 \<le> r \<and> r < r1 then markRange c0 c1 (px ! r) else px ! r)"
  by (simp add: markFoot_def)

lemma markRange_done: "b \<le> a \<Longrightarrow> markRange a b row = row"
  by (rule nth_equalityI) (auto simp: nth_markRange)

lemma markRange_step:
  "a < b \<Longrightarrow> a < length row \<Longrightarrow>
   markRange (Suc a) b (row[a := markPixel (row ! a)]) = markRange a b row"
  by (rule nth_equalityI) (auto simp: nth_markRange nth_list_update)

lemma markFoot_done: "r1 \<le> r0 \<Longrightarrow> markFoot r0 r1 c0 c1 px = px"
  by (rule nth_equalityI) (auto simp: nth_markFoot)

lemma markFoot_step:
  "r0 < r1 \<Longrightarrow> r0 < length px \<Longrightarrow>
   markFoot (Suc r0) r1 c0 c1 (px[r0 := markRange c0 c1 (px ! r0)]) = markFoot r0 r1 c0 c1 px"
  by (rule nth_equalityI) (auto simp: nth_markFoot nth_list_update)

lemma markPatternCols_pure:
  assumes "k < length px" "unat x + length (p ! 0) \<le> length (px ! k)"
  shows "markPatternCols p px x k h =
           Inr (px[k := markRange h (unat x + length (p ! 0)) (px ! k)])"
  using assms
proof (induction p px x k h rule: markPatternCols.induct)
  case (1 p px x k h)
  show ?case
  proof (cases "h < unat x + length (p ! 0)")
    case False
    then show ?thesis
      by (subst markPatternCols.simps) (simp add: markRange_done)
  next
    case True
    let ?px = "px[k := (px ! k)[h := (if px ! k ! h > 0 then 2 else px ! k ! h)]]"
    from True 1(2,3) have rng: "\<not> (length px \<le> k \<or> length (px ! k) \<le> h)" by simp
    have "markPatternCols p ?px x k (Suc h) =
            Inr (?px[k := markRange (Suc h) (unat x + length (p ! 0)) (?px ! k)])"
      using 1(1) [OF True rng] 1(2,3) by simp
    also have "?px ! k = (px ! k)[h := markPixel (px ! k ! h)]"
      using 1(2) by (simp add: markPixel_def)
    also have "markRange (Suc h) (unat x + length (p ! 0)) ((px ! k)[h := markPixel (px ! k ! h)])
             = markRange h (unat x + length (p ! 0)) (px ! k)"
      using True rng by (simp add: markRange_step)
    finally show ?thesis using True rng
      by (subst markPatternCols.simps) simp
  qed
qed

lemma markPatternRows_pure:
  assumes "unat y + length p \<le> length px"
    and "\<forall>r<length px. unat x + length (p ! 0) \<le> length (px ! r)"
  shows "markPatternRows p px x y k =
           Inr (markFoot k (unat y + length p) (unat x) (unat x + length (p ! 0)) px)"
  using assms
proof (induction p px x y k rule: markPatternRows.induct)
  case (1 p px x y k)
  show ?case
  proof (cases "k < unat y + length p")
    case False
    then show ?thesis
      by (subst markPatternRows.simps) (simp add: markFoot_done)
  next
    case True
    let ?row = "markRange (unat x) (unat x + length (p ! 0)) (px ! k)"
    let ?px = "px[k := ?row]"
    from True 1(2) have k: "k < length px" by simp
    with 1(3) have cols: "markPatternCols p px x k (unat x) = Inr ?px"
      by (simp add: markPatternCols_pure)
    have len: "\<forall>r<length ?px. unat x + length (p ! 0) \<le> length (?px ! r)"
    proof (intro allI impI)
      fix r assume "r < length ?px"
      with 1(3) show "unat x + length (p ! 0) \<le> length (?px ! r)"
        by (cases "r = k") simp_all
    qed
    have "markPatternRows p ?px x y (Suc k) =
            Inr (markFoot (Suc k) (unat y + length p) (unat x) (unat x + length (p ! 0)) ?px)"
      using 1(1) [OF True cols] 1(2) len by simp
    also have "markFoot (Suc k) (unat y + length p) (unat x) (unat x + length (p ! 0)) ?px
             = markFoot k (unat y + length p) (unat x) (unat x + length (p ! 0)) px"
      using True k by (simp add: markFoot_step)
    finally show ?thesis using True cols
      by (subst markPatternRows.simps) simp
  qed
qed

lemma markPattern_pure:
  assumes "p \<noteq> []" "j + length p \<le> length px" "length px \<le> 255"
    and "\<forall>r<length px. i + length (p ! 0) \<le> length (px ! r)"
    and "i + length (p ! 0) \<le> 255"
  shows "markPattern p px (of_nat i) (of_nat j) =
           Inr (markFoot j (j + length p) i (i + length (p ! 0)) px)"
proof -
  have i: "unat (of_nat i :: 8 word) = i"
    using assms(5) by (simp add: unat_of_nat)
  have j: "unat (of_nat j :: 8 word) = j"
    using assms(2,3) by (simp add: unat_of_nat)
  show ?thesis
    using assms markPatternRows_pure [of "of_nat j" p px "of_nat i" j]
    by (simp add: markPattern_def i j)
qed

lemma rectangular_nth: "rectangular p \<Longrightarrow> k < length p \<Longrightarrow> length (p ! k) = length (p ! 0)"
  unfolding rectangular_def by (blast intro: nth_mem)

lemma grid_markAt: "grid H W px \<Longrightarrow> grid H W (markAt p a px)"
  by (auto simp: grid_def markAt_def nth_markFoot)

lemma grid_fold_markAt: "grid H W px \<Longrightarrow> grid H W (fold (markAt p) ms px)"
  by (induction ms arbitrary: px) (simp_all add: grid_markAt)

lemma patternFoundAt_grid:
  assumes "rectangular p" "grid H W px" "j + length p \<le> H" "i + length (p ! 0) \<le> W"
  shows "patternFoundAt p px j i = Inr (fullMatch p px j i)"
proof (rule patternFoundAt_pure)
  show "p \<noteq> []" using assms(1) by (simp add: rectangular_def)
  show "j + length p \<le> length px" using assms(2,3) by (simp add: grid_def)
  show "\<forall>k<length p. i + length (p ! k) \<le> length (px ! (j + k))"
    using assms by (simp add: grid_def rectangular_nth)
qed

lemma markPattern_grid:
  assumes "rectangular p" "grid H W cur" "j + length p \<le> H" "i + length (p ! 0) \<le> W"
    and "H \<le> 255" "W \<le> 255"
  shows "markPattern p cur (of_nat i) (of_nat j) = Inr (markAt p (j, i) cur)"
  unfolding markAt_def fst_conv snd_conv
proof (rule markPattern_pure)
  show "p \<noteq> []" using assms(1) by (simp add: rectangular_def)
  show "j + length p \<le> length cur" using assms(2,3) by (simp add: grid_def)
  show "length cur \<le> 255" using assms(2,5) by (simp add: grid_def)
  show "\<forall>r<length cur. i + length (p ! 0) \<le> length (cur ! r)"
    using assms(2,4) by (simp add: grid_def)
  show "i + length (p ! 0) \<le> 255" using assms(4,6) by simp
qed

lemma rowMatchesOf_done: "\<not> i < W - length (p ! 0) \<Longrightarrow> rowMatchesOf p px W j i = []"
  by (simp add: rowMatchesOf_def)

lemma rowMatchesOf_step:
  "i < W - length (p ! 0) \<Longrightarrow>
   rowMatchesOf p px W j i =
     (if fullMatch p px j i then [(j, i)] else []) @ rowMatchesOf p px W j (Suc i)"
  by (simp add: rowMatchesOf_def upt_conv_Cons)

lemma scanCols_pure:
  assumes "rectangular p" "grid H W px" "grid H W (fst st)" "j + length p \<le> H" "j < H"
    and "H \<le> 255" "W \<le> 255"
  shows "scanCols p px j i st =
           Inr (fold (markAt p) (rowMatchesOf p px W j i) (fst st),
                snd st @ rowMatchesOf p px W j i)"
  using assms
proof (induction p px j i st rule: scanCols.induct)
  case (1 p px j i st)
  from 1(4,7) have W: "length (px ! j) = W" by (simp add: grid_def)
  show ?case
  proof (cases "i < W - length (p ! 0)")
    case False
    then show ?thesis using W
      by (subst scanCols.simps) (simp add: rowMatchesOf_done)
  next
    case True
    then have iw: "i + length (p ! 0) \<le> W" by simp
    from True W have c: "i < length (px ! j) - length (p ! 0)" by simp
    have pf: "patternFoundAt p px j i = Inr (fullMatch p px j i)"
      using 1(3,4,6) iw by (rule patternFoundAt_grid)
    show ?thesis
    proof (cases "fullMatch p px j i")
      case False
      have "scanCols p px j (Suc i) st =
              Inr (fold (markAt p) (rowMatchesOf p px W j (Suc i)) (fst st),
                   snd st @ rowMatchesOf p px W j (Suc i))"
        using 1(2) [OF c pf False] 1(3-9) by simp
      then show ?thesis using c pf False True
        by (subst scanCols.simps) (simp add: rowMatchesOf_step)
    next
      case fm: True
      have mp: "markPattern p (fst st) (of_nat i) (of_nat j) = Inr (markAt p (j, i) (fst st))"
        using 1(3,5,6) iw 1(8,9) by (rule markPattern_grid)
      have "scanCols p px j (Suc i) (markAt p (j, i) (fst st), snd st @ [(j, i)]) =
              Inr (fold (markAt p) (rowMatchesOf p px W j (Suc i)) (markAt p (j, i) (fst st)),
                   (snd st @ [(j, i)]) @ rowMatchesOf p px W j (Suc i))"
        using 1(1) [OF c pf fm mp] 1(3-9) by (simp add: grid_markAt)
      then show ?thesis using c pf fm mp True
        by (subst scanCols.simps) (simp add: rowMatchesOf_step)
    qed
  qed
qed

lemma matchesFrom_done: "\<not> j < H - length p \<Longrightarrow> matchesFrom p px H W j = []"
  by (simp add: matchesFrom_def)

lemma matchesFrom_step:
  "j < H - length p \<Longrightarrow>
   matchesFrom p px H W j = rowMatchesOf p px W j 0 @ matchesFrom p px H W (Suc j)"
  by (simp add: matchesFrom_def upt_conv_Cons)

lemma scanRows_pure:
  assumes "rectangular p" "grid H W px" "grid H W (fst st)" "length (p ! 0) \<le> W"
    and "H \<le> 255" "W \<le> 255"
  shows "scanRows p px j st =
           Inr (fold (markAt p) (matchesFrom p px H W j) (fst st),
                snd st @ matchesFrom p px H W j)"
  using assms
proof (induction p px j st rule: scanRows.induct)
  case (1 p px j st)
  from 1(3) have H: "length px = H" by (simp add: grid_def)
  show ?case
  proof (cases "j < H - length p")
    case False
    then show ?thesis using H
      by (subst scanRows.simps) (simp add: matchesFrom_done)
  next
    case True
    then have jh: "j + length p \<le> H" "j < H" by simp_all
    from True H have c: "j < length px - length p" by simp
    from jh 1(3,5) have w: "\<not> length (px ! j) < length (p ! 0)" by (simp add: grid_def)
    let ?st = "(fold (markAt p) (rowMatchesOf p px W j 0) (fst st), snd st @ rowMatchesOf p px W j 0)"
    have sc: "scanCols p px j 0 st = Inr ?st"
      using 1(2,3,4) jh 1(6,7) by (rule scanCols_pure)
    have "scanRows p px (Suc j) ?st =
            Inr (fold (markAt p) (matchesFrom p px H W (Suc j)) (fst ?st),
                 snd ?st @ matchesFrom p px H W (Suc j))"
      using 1(1) [OF c w sc] 1(2-7) by (simp add: grid_fold_markAt)
    then show ?thesis using c w sc True
      by (subst scanRows.simps) (simp add: matchesFrom_step)
  qed
qed

lemma nth_markAt:
  "grid H W px \<Longrightarrow> r < H \<Longrightarrow> c < W \<Longrightarrow>
   markAt p a px ! r ! c = (if covers p a r c then markPixel (px ! r ! c) else px ! r ! c)"
  by (simp add: grid_def markAt_def nth_markFoot nth_markRange covers_def)

lemma nth_fold_markAt:
  "grid H W px \<Longrightarrow> r < H \<Longrightarrow> c < W \<Longrightarrow>
   fold (markAt p) ms px ! r ! c =
     (if \<exists>a\<in>set ms. covers p a r c then markPixel (px ! r ! c) else px ! r ! c)"
proof (induction ms arbitrary: px)
  case Nil
  then show ?case by simp
next
  case (Cons a ms)
  from Cons.prems have g: "grid H W (markAt p a px)" by (simp add: grid_markAt)
  show ?case
    using Cons.IH [OF g Cons.prems(2,3)] Cons.prems
    by (simp add: nth_markAt)
qed

lemma fullMatch_cells:
  assumes "rectangular p" "grid H W px" "j + length p \<le> H" "i + length (p ! 0) \<le> W"
  shows "fullMatch p px j i \<longleftrightarrow>
         (\<forall>k<length p. \<forall>d<length (p ! 0). px ! (j + k) ! (i + d) = p ! k ! d)"
proof -
  have "rowMatches p px j i k \<longleftrightarrow> (\<forall>d<length (p ! 0). px ! (j + k) ! (i + d) = p ! k ! d)"
    if k: "k < length p" for k
  proof -
    have w: "length (p ! k) = length (p ! 0)"
      using assms(1) k by (rule rectangular_nth)
    have W: "length (px ! (j + k)) = W"
      using assms(2,3) k by (simp add: grid_def)
    show ?thesis
      unfolding rowMatches_def w
      using W assms(4) by (auto simp: list_eq_iff_nth_eq w)
  qed
  then show ?thesis by (simp add: fullMatch_def)
qed

lemma set_matchesFrom:
  "set (matchesFrom p px H W 0) =
     {(j, i). j < H - length p \<and> i < W - length (p ! 0) \<and> fullMatch p px j i}"
  by (auto simp: matchesFrom_def rowMatchesOf_def)

lemma markPixel_cases: "markPixel v = 2 \<or> markPixel v = v"
  by (simp add: markPixel_def)

lemma rectangular_cell_in_set:
  "rectangular p \<Longrightarrow> k < length p \<Longrightarrow> d < length (p ! 0) \<Longrightarrow> p ! k ! d \<in> set (p ! k)"
  by (simp add: rectangular_nth)

lemma second_scan_marks_nothing:
  assumes rect: "rectangular p" and g: "grid H W px"
    and no2: "\<forall>row\<in>set p. 2 \<notin> set row"
  defines "px1 \<equiv> fold (markAt p) (matchesFrom p px H W 0) px"
  shows "fold (markAt p) (matchesFrom p px1 H W 0) px1 = px1"
proof -
  have g1: "grid H W px1"
    unfolding px1_def using g by (rule grid_fold_markAt)
  have g2: "grid H W (fold (markAt p) (matchesFrom p px1 H W 0) px1)"
    using g1 by (rule grid_fold_markAt)
  have cell1: "px1 ! r ! c =
      (if \<exists>a\<in>set (matchesFrom p px H W 0). covers p a r c
       then markPixel (px ! r ! c) else px ! r ! c)" if "r < H" "c < W" for r c
    unfolding px1_def using g that by (rule nth_fold_markAt)
  have keep: "px1 ! r ! c = px ! r ! c" if "r < H" "c < W" "px1 ! r ! c \<noteq> 2" for r c
    using cell1 [OF that(1,2)] that(3) markPixel_cases [of "px ! r ! c"]
    by (auto split: if_splits)
  have fixed: "markPixel (px1 ! r ! c) = px1 ! r ! c"
    if rc: "r < H" "c < W" and a: "a \<in> set (matchesFrom p px1 H W 0)" and cov: "covers p a r c"
    for r c a
  proof -
    obtain j i where ji: "a = (j, i)" by (cases a)
    from a ji have bounds: "j < H - length p" "i < W - length (p ! 0)"
      and fm1: "fullMatch p px1 j i"
      by (simp_all add: set_matchesFrom)
    from bounds have fit: "j + length p \<le> H" "i + length (p ! 0) \<le> W" by simp_all
    have c1: "px1 ! (j + k) ! (i + d) = p ! k ! d" if "k < length p" "d < length (p ! 0)" for k d
      using fm1 that fullMatch_cells [OF rect g1 fit] by blast
    have "px ! (j + k) ! (i + d) = p ! k ! d" if kd: "k < length p" "d < length (p ! 0)" for k d
    proof -
      have "p ! k \<in> set p" using kd(1) by simp
      with no2 have "2 \<notin> set (p ! k)" by blast
      with rectangular_cell_in_set [OF rect kd] have "p ! k ! d \<noteq> 2" by metis
      with c1 [OF kd] have ne: "px1 ! (j + k) ! (i + d) \<noteq> 2" by simp
      have "j + k < H" "i + d < W" using fit kd by simp_all
      from keep [OF this ne] c1 [OF kd] show ?thesis by simp
    qed
    then have "fullMatch p px j i"
      using fullMatch_cells [OF rect g fit] by blast
    with bounds have "a \<in> set (matchesFrom p px H W 0)"
      by (simp add: set_matchesFrom ji)
    with cov cell1 [OF rc] have "px1 ! r ! c = markPixel (px ! r ! c)" by auto
    then show ?thesis by (metis markPixel_idem)
  qed
  have cell2: "fold (markAt p) (matchesFrom p px1 H W 0) px1 ! r ! c = px1 ! r ! c"
    if rc: "r < H" "c < W" for r c
    using nth_fold_markAt [OF g1 rc, of p "matchesFrom p px1 H W 0"] fixed [OF rc]
    by auto
  show ?thesis
  proof (rule nth_equalityI)
    show "length (fold (markAt p) (matchesFrom p px1 H W 0) px1) = length px1"
      using g1 g2 by (simp add: grid_def)
  next
    fix r assume "r < length (fold (markAt p) (matchesFrom p px1 H W 0) px1)"
    with g2 have r: "r < H" by (simp add: grid_def)
    show "fold (markAt p) (matchesFrom p px1 H W 0) px1 ! r = px1 ! r"
    proof (rule nth_equalityI)
      show "length (fold (markAt p) (matchesFrom p px1 H W 0) px1 ! r) = length (px1 ! r)"
        using g1 g2 r by (simp add: grid_def)
    next
      fix c assume "c < length (fold (markAt p) (matchesFrom p px1 H W 0) px1 ! r)"
      with g2 r have "c < W" by (simp add: grid_def)
      with r show "fold (markAt p) (matchesFrom p px1 H W 0) px1 ! r ! c = px1 ! r ! c"
        by (rule cell2)
    qed
  qed
qed

lemma unat_8_le: "unat (x :: 8 word) \<le> 255"
  using unsigned_less [of x, where 'a = nat] by simp

lemma frameInvariant_grid:
  "frameInvariant f \<Longrightarrow> grid (unat (m_height f)) (unat (m_width f)) (m_pixels f)"
  by (simp add: frameInvariant_def grid_def)

lemma grid_frameInvariant:
  "grid (unat (m_height f)) (unat (m_width f)) px \<Longrightarrow> frameInvariant (f\<lparr>m_pixels := px\<rparr>)"
  by (auto simp: frameInvariant_def grid_def in_set_conv_nth)

lemma check_small:
  "length (m_pixels f) < length p \<or> (p \<noteq> [] \<and> length (m_pixels f ! 0) < length (p ! 0)) \<Longrightarrow>
   checkPatternAndMarkExistingPatterns p f = Inr (f, [])"
  by (auto simp: checkPatternAndMarkExistingPatterns_def Let_def)

lemma check_scan:
  assumes "rectangular p" "grid H W (m_pixels f)" "H \<le> 255" "W \<le> 255"
    and "length p \<le> H" "length (p ! 0) \<le> W"
  shows "checkPatternAndMarkExistingPatterns p f =
           Inr (f\<lparr>m_pixels := fold (markAt p) (matchesFrom p (m_pixels f) H W 0) (m_pixels f)\<rparr>,
                matchesFrom p (m_pixels f) H W 0)"
proof -
  from assms(1) have ne: "p \<noteq> []" by (simp add: rectangular_def)
  with assms(5) have "0 < H" by (cases p) auto
  with assms(2) have len: "length (m_pixels f) = H" "length (m_pixels f ! 0) = W"
    by (simp_all add: grid_def)
  have "scanRows p (m_pixels f) 0 (m_pixels f, []) =
          Inr (fold (markAt p) (matchesFrom p (m_pixels f) H W 0) (m_pixels f),
               matchesFrom p (m_pixels f) H W 0)"
    using scanRows_pure [OF assms(1,2) _ assms(6,3,4), of "(m_pixels f, [])" 0] assms(2)
    by simp
  then show ?thesis
    using ne len assms(5,6)
    by (simp add: checkPatternAndMarkExistingPatterns_def Let_def)
qed

lemma matchesFrom_filter:
  assumes "rectangular p" "grid H W px" "length p \<le> H" "length (p ! 0) \<le> W"
  shows "matchesFrom p px H W 0 =
           filter (\<lambda>(j, i). patternFoundAt p px j i = Inr True) (examinedAnchors p px)"
proof -
  from assms(1) have "p \<noteq> []" by (simp add: rectangular_def)
  with assms(3) have "0 < H" by (cases p) auto
  with assms(2) have len: "length px = H" "length (px ! 0) = W"
    by (simp_all add: grid_def)
  have row: "map (Pair j) (filter (fullMatch p px j) [0..<W - length (p ! 0)])
           = filter (\<lambda>(j, i). patternFoundAt p px j i = Inr True)
               (map (Pair j) [0..<length (px ! j) - length (p ! 0)])"
    if j: "j < H - length p" for j
  proof -
    from j assms(2) have W: "length (px ! j) = W" by (simp add: grid_def)
    have "fullMatch p px j i = (patternFoundAt p px j i = Inr True)"
      if "i < W - length (p ! 0)" for i
      using patternFoundAt_grid [OF assms(1,2), of j i] j that by simp
    then have "filter (fullMatch p px j) [0..<W - length (p ! 0)]
             = filter (\<lambda>i. patternFoundAt p px j i = Inr True) [0..<W - length (p ! 0)]"
      by (intro filter_cong refl) simp
    then show ?thesis
      by (simp add: W filter_map comp_def)
  qed
  have "map (\<lambda>j. map (Pair j) (filter (fullMatch p px j) [0..<W - length (p ! 0)]))
            [0..<H - length p]
      = map (\<lambda>j. filter (\<lambda>(j, i). patternFoundAt p px j i = Inr True)
                   (map (Pair j) [0..<length (px ! j) - length (p ! 0)]))
            [0..<H - length p]"
    by (intro map_cong refl) (simp add: row)
  then have "matchesFrom p px H W 0 =
      concat (map (\<lambda>j. filter (\<lambda>(j, i). patternFoundAt p px j i = Inr True)
                   (map (Pair j) [0..<length (px ! j) - length (p ! 0)]))
            [0..<H - length p])"
    by (simp only: matchesFrom_def rowMatchesOf_def)
  also have "\<dots> = filter (\<lambda>(j, i). patternFoundAt p px j i = Inr True) (examinedAnchors p px)"
    using len assms(3,4) by (simp add: examinedAnchors_def filter_concat comp_def)
  finally show ?thesis .
qed

lemma frame_too_small:
  assumes "rectangular p" "frameInvariant f"
    and "\<not> (length p \<le> unat (m_height f) \<and> length (p ! 0) \<le> unat (m_width f))"
  shows "length (m_pixels f) < length p \<or> length (m_pixels f ! 0) < length (p ! 0)"
proof (cases "length (m_pixels f) < length p")
  case True
  then show ?thesis by simp
next
  case h: False
  from assms(1) have "p \<noteq> []" by (simp add: rectangular_def)
  with h have "m_pixels f \<noteq> []" by auto
  then have "m_pixels f ! 0 \<in> set (m_pixels f)" by simp
  with assms(2) have "length (m_pixels f ! 0) = unat (m_width f)"
    by (simp add: frameInvariant_def)
  moreover from assms(2) have "length (m_pixels f) = unat (m_height f)"
    by (simp add: frameInvariant_def)
  ultimately show ?thesis using assms(3) h by simp
qed

section \<open>Properties of the detector\<close>

text \<open>
  Claim C6. A frame with fewer rows than the pattern, or whose first row is shorter than
  the pattern's first row, comes back from \<^verbatim>\<open>process\<close> as it was, with no match
  reported.
\<close>

theorem small_frame_unchanged:
  "length (m_pixels f) < length p \<or> (p \<noteq> [] \<and> length (m_pixels f ! 0) < length (p ! 0)) \<Longrightarrow>
   DetectorElement_process p f = Inr (f, [])"
  unfolding DetectorElement_process_def by (rule check_small)

text \<open>A frame of 3 rows and a frame of 2 columns against the pattern of 4 rows and 3 columns.\<close>

theorem small_frame_unchanged_witness:
  "DetectorElement_process mainPattern
     \<lparr>m_width = 5, m_height = 3, m_pixels = [[0, 1, 0, 0, 0], [1, 1, 1, 0, 0], [0, 1, 0, 0, 0]]\<rparr>
   = Inr (\<lparr>m_width = 5, m_height = 3,
           m_pixels = [[0, 1, 0, 0, 0], [1, 1, 1, 0, 0], [0, 1, 0, 0, 0]]\<rparr>, [])
   \<and> DetectorElement_process mainPattern
     \<lparr>m_width = 2, m_height = 5, m_pixels = [[0, 1], [1, 1], [0, 1], [1, 0], [1, 1]]\<rparr>
   = Inr (\<lparr>m_width = 2, m_height = 5,
           m_pixels = [[0, 1], [1, 1], [0, 1], [1, 0], [1, 1]]\<rparr>, [])"
proof -
  let ?short = "\<lparr>m_width = 5, m_height = 3,
                 m_pixels = [[0, 1, 0, 0, 0], [1, 1, 1, 0, 0], [0, 1, 0, 0, 0 :: 8 word]]\<rparr>"
  let ?narrow = "\<lparr>m_width = 2, m_height = 5,
                  m_pixels = [[0, 1], [1, 1], [0, 1], [1, 0], [1, 1 :: 8 word]]\<rparr>"
  have a: "length (m_pixels ?short) < length mainPattern
           \<or> (mainPattern \<noteq> [] \<and> length (m_pixels ?short ! 0) < length (mainPattern ! 0))"
    by (simp add: mainPattern_def)
  have b: "length (m_pixels ?narrow) < length mainPattern
           \<or> (mainPattern \<noteq> [] \<and> length (m_pixels ?narrow ! 0) < length (mainPattern ! 0))"
    by (simp add: mainPattern_def)
  from small_frame_unchanged [OF a] small_frame_unchanged [OF b] show ?thesis by simp
qed

text \<open>
  Claim C4, evaluated on the code. The two scan loops stop one short: \<open>j\<close> stays below
  rows minus pattern rows and \<open>i\<close> below columns minus pattern columns, so the last row
  and the last column at which the pattern fits are never examined. A frame that is the
  pattern itself matches at \<open>(0, 0)\<close> and nothing is reported or marked; a frame of 5
  rows and 4 columns that holds the pattern at \<open>(1, 1)\<close> is left as it is as well.
\<close>

theorem matcher_skips_last_row_and_column:
  "patternFoundAt mainPattern mainPattern 0 0 = Inr True
   \<and> DetectorElement_process mainPattern \<lparr>m_width = 3, m_height = 4, m_pixels = mainPattern\<rparr>
       = Inr (\<lparr>m_width = 3, m_height = 4, m_pixels = mainPattern\<rparr>, [])
   \<and> patternFoundAt mainPattern
         [[0, 0, 0, 0], [0, 0, 1, 0], [0, 1, 1, 1], [0, 0, 1, 0], [0, 1, 0, 1]] 1 1 = Inr True
   \<and> DetectorElement_process mainPattern
         \<lparr>m_width = 4, m_height = 5,
          m_pixels = [[0, 0, 0, 0], [0, 0, 1, 0], [0, 1, 1, 1], [0, 0, 1, 0], [0, 1, 0, 1]]\<rparr>
       = Inr (\<lparr>m_width = 4, m_height = 5,
               m_pixels = [[0, 0, 0, 0], [0, 0, 1, 0], [0, 1, 1, 1], [0, 0, 1, 0], [0, 1, 0, 1]]\<rparr>,
              [])"
  by code_simp

text \<open>
  Claim C5 fails on the code. Pattern \<open>[1, 1]\<close>, first row of the frame \<open>[1, 1, 1, 0]\<close>:
  the match at \<open>(0, 0)\<close> marks the cells 0 and 1 with 2. On the frame as marked the
  pattern is not found at \<open>(0, 1)\<close> any more; the call reports \<open>(0, 1)\<close> all the same
  and marks cell 2, because its comparisons read the copy made at entry.
\<close>

theorem later_match_reads_marked_cells_counterexample:
  "markPattern [[1, 1]] [[1, 1, 1, 0], [0, 0, 0, 0]] 0 0 = Inr [[2, 2, 1, 0], [0, 0, 0, 0]]
   \<and> patternFoundAt [[1, 1]] [[2, 2, 1, 0], [0, 0, 0, 0]] 0 1 = Inr False
   \<and> DetectorElement_process [[1, 1]]
         \<lparr>m_width = 4, m_height = 2, m_pixels = [[1, 1, 1, 0], [0, 0, 0, 0]]\<rparr>
       = Inr (\<lparr>m_width = 4, m_height = 2, m_pixels = [[2, 2, 2, 0], [0, 0, 0, 0]]\<rparr>,
              [(0, 0), (0, 1)])"
  by code_simp

text \<open>
  Claim C5 as amended. Within one call every comparison reads the pixels as they were when
  the call was entered; marking by an earlier match has no effect on a later test. For a
  rectangular pattern and a frame that satisfies the frame invariant, the call returns,
  and the matches it reports are exactly the examined anchors at which the frame as it
  was at entry holds the pattern, in scan order.
\<close>

theorem matches_read_entry_snapshot:
  assumes "rectangular p" "frameInvariant f"
  shows "\<exists>f'. DetectorElement_process p f =
           Inr (f', filter (\<lambda>(j, i). patternFoundAt p (m_pixels f) j i = Inr True)
                      (examinedAnchors p (m_pixels f)))"
proof (cases "length p \<le> unat (m_height f) \<and> length (p ! 0) \<le> unat (m_width f)")
  case True
  from assms(2) have g: "grid (unat (m_height f)) (unat (m_width f)) (m_pixels f)"
    by (rule frameInvariant_grid)
  from True have hw: "length p \<le> unat (m_height f)" "length (p ! 0) \<le> unat (m_width f)"
    by simp_all
  show ?thesis
    unfolding DetectorElement_process_def
    using check_scan [OF assms(1) g unat_8_le unat_8_le hw]
      matchesFrom_filter [OF assms(1) g hw]
    by simp
next
  case False
  from assms(1) have ne: "p \<noteq> []" by (simp add: rectangular_def)
  have small: "length (m_pixels f) < length p \<or> length (m_pixels f ! 0) < length (p ! 0)"
    using frame_too_small [OF assms(1,2) False] by blast
  then have "examinedAnchors p (m_pixels f) = []"
    by (simp add: examinedAnchors_def)
  moreover have "checkPatternAndMarkExistingPatterns p f = Inr (f, [])"
    using small ne by (intro check_small) auto
  ultimately show ?thesis
    unfolding DetectorElement_process_def by simp
qed

theorem matches_read_entry_snapshot_witness:
  "rectangular [[1, 1]]
   \<and> frameInvariant \<lparr>m_width = 4, m_height = 2, m_pixels = [[1, 1, 1, 0], [0, 0, 0, 0]]\<rparr>
   \<and> (\<exists>f'. DetectorElement_process [[1, 1]]
               \<lparr>m_width = 4, m_height = 2, m_pixels = [[1, 1, 1, 0], [0, 0, 0, 0]]\<rparr>
             = Inr (f', [(0, 0), (0, 1)]))"
proof -
  let ?f = "\<lparr>m_width = 4, m_height = 2, m_pixels = [[1, 1, 1, 0], [0, 0, 0, 0]]\<rparr>"
  have r: "rectangular [[1, 1]]" by (simp add: rectangular_def)
  have i: "frameInvariant ?f" by (simp add: frameInvariant_def)
  have e: "filter (\<lambda>(j, i). patternFoundAt [[1, 1]] (m_pixels ?f) j i = Inr True)
             (examinedAnchors [[1, 1]] (m_pixels ?f)) = [(0, 0), (0, 1)]"
    by code_simp
  from matches_read_entry_snapshot [OF r i] e r i show ?thesis by simp
qed

text \<open>
  Claim C7 fails on the code. Pattern \<open>[2, 1]\<close>, first row of the frame \<open>[2, 1, 1, 0]\<close>:
  the first call finds the pattern at \<open>(0, 0)\<close> and turns the row into \<open>[2, 2, 1, 0]\<close>;
  the second call now finds it at \<open>(0, 1)\<close> and changes cell 2.
\<close>

theorem matcher_twice_changes_frame_counterexample:
  "DetectorElement_process [[2, 1]]
     \<lparr>m_width = 4, m_height = 2, m_pixels = [[2, 1, 1, 0], [0, 0, 0, 0]]\<rparr>
   = Inr (\<lparr>m_width = 4, m_height = 2, m_pixels = [[2, 2, 1, 0], [0, 0, 0, 0]]\<rparr>, [(0, 0)])
   \<and> DetectorElement_process [[2, 1]]
     \<lparr>m_width = 4, m_height = 2, m_pixels = [[2, 2, 1, 0], [0, 0, 0, 0]]\<rparr>
   = Inr (\<lparr>m_width = 4, m_height = 2, m_pixels = [[2, 2, 2, 0], [0, 0, 0, 0]]\<rparr>, [(0, 1)])"
  by code_simp

text \<open>
  Claim C7 as amended. For a rectangular pattern none of whose cells is 2 (the value used
  for marking) and a frame that satisfies the frame invariant, \<^verbatim>\<open>process\<close> returns a
  frame on which a second \<^verbatim>\<open>process\<close> returns the same frame: the second run changes
  no cell.
\<close>

theorem matcher_idempotent_without_marked_value:
  assumes "rectangular p" "frameInvariant f" "2 \<notin> set (concat p)"
  shows "\<exists>f1 ms1 ms2. DetectorElement_process p f = Inr (f1, ms1)
                     \<and> DetectorElement_process p f1 = Inr (f1, ms2)"
proof (cases "length p \<le> unat (m_height f) \<and> length (p ! 0) \<le> unat (m_width f)")
  case True
  from assms(3) have no2: "\<forall>row\<in>set p. 2 \<notin> set row" by auto
  let ?H = "unat (m_height f)" and ?W = "unat (m_width f)"
  let ?px1 = "fold (markAt p) (matchesFrom p (m_pixels f) ?H ?W 0) (m_pixels f)"
  let ?f1 = "f\<lparr>m_pixels := ?px1\<rparr>"
  from assms(2) have g: "grid ?H ?W (m_pixels f)"
    by (rule frameInvariant_grid)
  from True have hw: "length p \<le> ?H" "length (p ! 0) \<le> ?W"
    by simp_all
  have run1: "checkPatternAndMarkExistingPatterns p f =
                Inr (?f1, matchesFrom p (m_pixels f) ?H ?W 0)"
    using assms(1) g unat_8_le unat_8_le hw by (rule check_scan)
  have g1: "grid ?H ?W (m_pixels ?f1)"
    using g by (simp add: grid_fold_markAt)
  have "checkPatternAndMarkExistingPatterns p ?f1 =
          Inr (?f1\<lparr>m_pixels :=
                    fold (markAt p) (matchesFrom p (m_pixels ?f1) ?H ?W 0) (m_pixels ?f1)\<rparr>,
               matchesFrom p (m_pixels ?f1) ?H ?W 0)"
    using assms(1) g1 unat_8_le unat_8_le hw by (rule check_scan)
  moreover have "fold (markAt p) (matchesFrom p (m_pixels ?f1) ?H ?W 0) (m_pixels ?f1) = ?px1"
    using second_scan_marks_nothing [OF assms(1) g no2] by simp
  ultimately have run2: "checkPatternAndMarkExistingPatterns p ?f1 =
      Inr (?f1, matchesFrom p (m_pixels ?f1) ?H ?W 0)"
    by simp
  from run1 run2 show ?thesis
    unfolding DetectorElement_process_def by blast
next
  case False
  from assms(1) have ne: "p \<noteq> []" by (simp add: rectangular_def)
  have "length (m_pixels f) < length p \<or> (p \<noteq> [] \<and> length (m_pixels f ! 0) < length (p ! 0))"
    using frame_too_small [OF assms(1,2) False] ne by blast
  then have "checkPatternAndMarkExistingPatterns p f = Inr (f, [])"
    by (rule check_small)
  then show ?thesis
    unfolding DetectorElement_process_def by blast
qed

text \<open>
  The pattern of \<^verbatim>\<open>main\<close> in the top left corner of a frame of 5 rows and 4 columns:
  the anchor \<open>(0, 0)\<close> is examined, found and marked by the first run.
\<close>

theorem matcher_idempotent_without_marked_value_witness:
  "rectangular mainPattern
   \<and> frameInvariant \<lparr>m_width = 4, m_height = 5,
        m_pixels = [[0, 1, 0, 0], [1, 1, 1, 0], [0, 1, 0, 0], [1, 0, 1, 0], [0, 0, 0, 0]]\<rparr>
   \<and> 2 \<notin> set (concat mainPattern)
   \<and> (\<exists>f1 ms1 ms2.
         DetectorElement_process mainPattern \<lparr>m_width = 4, m_height = 5,
           m_pixels = [[0, 1, 0, 0], [1, 1, 1, 0], [0, 1, 0, 0], [1, 0, 1, 0], [0, 0, 0, 0]]\<rparr>
           = Inr (f1, ms1)
         \<and> DetectorElement_process mainPattern f1 = Inr (f1, ms2))"
proof -
  let ?f = "\<lparr>m_width = 4, m_height = 5,
        m_pixels = [[0, 1, 0, 0], [1, 1, 1, 0], [0, 1, 0, 0], [1, 0, 1, 0], [0, 0, 0, 0 :: 8 word]]\<rparr>"
  have r: "rectangular mainPattern" by (simp add: rectangular_def mainPattern_def)
  have i: "frameInvariant ?f" by (simp add: frameInvariant_def)
  have n: "2 \<notin> set (concat mainPattern)" by (simp add: mainPattern_def)
  from matcher_idempotent_without_marked_value [OF r i n] r i n show ?thesis by blast
qed


section \<open>Properties of the asynchronous queue\<close>

lemma checkQueueSizeConstraint_drop:
  "checkQueueSizeConstraint maxSize s =
     s\<lparr>m_videoFramesQueue :=
         drop (length (m_videoFramesQueue s) - unat maxSize) (m_videoFramesQueue s)\<rparr>"
proof (induction maxSize s rule: checkQueueSizeConstraint.induct)
  case (1 maxSize s)
  show ?case
  proof (cases "length (m_videoFramesQueue s) > unat maxSize")
    case False
    then show ?thesis by (subst checkQueueSizeConstraint.simps) simp
  next
    case True
    then have ne: "m_videoFramesQueue s \<noteq> []" by auto
    have "drop (length (tl (m_videoFramesQueue s)) - unat maxSize) (tl (m_videoFramesQueue s))
        = drop (length (m_videoFramesQueue s) - unat maxSize) (m_videoFramesQueue s)"
      using True ne by (cases "m_videoFramesQueue s") (simp_all add: Suc_diff_le)
    with 1 True show ?thesis by (subst checkQueueSizeConstraint.simps) simp
  qed
qed

lemma start_fields [simp]:
  "m_videoFramesQueue (start s) = m_videoFramesQueue s"
  "m_queueMaxSize (start s) = m_queueMaxSize s"
  "forwarded (start s) = forwarded s"
  by (simp_all add: start_def)

lemma process_capacity_zero:
  "m_queueMaxSize s = 0 \<Longrightarrow> process s videoFrame = start s"
  by (simp add: process_def pushNewVideoFrame_def)

lemma waitForNewVideoFrame_empty:
  "m_videoFramesQueue s = [] \<Longrightarrow> waitForNewVideoFrame s = (Waiting, s)"
  by (subst waitForNewVideoFrame.simps) (simp add: waitPredicate_def)

lemma relayStep_capacity_zero:
  assumes "m_queueMaxSize s = 0" "m_videoFramesQueue s = []" "forwarded s = []"
  shows "m_queueMaxSize (relayStep s a) = 0 \<and> m_videoFramesQueue (relayStep s a) = []
         \<and> forwarded (relayStep s a) = []"
  using assms by (cases a) (simp_all add: process_capacity_zero waitForNewVideoFrame_empty)

lemma relayRun_capacity_zero:
  "m_queueMaxSize s = 0 \<Longrightarrow> m_videoFramesQueue s = [] \<Longrightarrow> forwarded s = [] \<Longrightarrow>
   m_videoFramesQueue (foldl relayStep s as) = [] \<and> forwarded (foldl relayStep s as) = []"
proof (induction as arbitrary: s)
  case Nil
  then show ?case by simp
next
  case (Cons a as)
  from relayStep_capacity_zero [OF Cons.prems, of a] Cons.IH [of "relayStep s a"]
  show ?case by simp
qed

text \<open>
  What a burst of enqueues leaves in a queue of maximum size \<open>N > 0\<close>: the size check
  runs before the push and only pops while the size is above \<open>N\<close>, so the queue keeps
  the last \<open>N + 1\<close> frames.
\<close>

lemma queue_after_process:
  "m_queueMaxSize s > 0 \<Longrightarrow>
   m_videoFramesQueue (process s videoFrame) =
     drop (length (m_videoFramesQueue s) - unat (m_queueMaxSize s)) (m_videoFramesQueue s)
       @ [videoFrame]"
  by (simp add: process_def pushNewVideoFrame_def Let_def checkQueueSizeConstraint_drop)

lemma process_maxSize [simp]: "m_queueMaxSize (process s videoFrame) = m_queueMaxSize s"
  by (simp add: process_def pushNewVideoFrame_def Let_def checkQueueSizeConstraint_drop)

lemma foldl_process_maxSize [simp]:
  "m_queueMaxSize (foldl process s fs) = m_queueMaxSize s"
  by (induction fs arbitrary: s) simp_all

lemma queue_after_burst:
  "queueMaxSize > 0 \<Longrightarrow>
   m_videoFramesQueue (foldl process (newAsynchronousQueue queueMaxSize) fs) =
     drop (length fs - Suc (unat queueMaxSize)) fs"
proof (induction fs rule: rev_induct)
  case Nil
  then show ?case by (simp add: newAsynchronousQueue_def)
next
  case (snoc f fs)
  let ?s = "foldl process (newAsynchronousQueue queueMaxSize) fs"
  have m: "m_queueMaxSize ?s = queueMaxSize" by (simp add: newAsynchronousQueue_def)
  have "m_videoFramesQueue (process ?s f) =
          drop (length (m_videoFramesQueue ?s) - unat queueMaxSize) (m_videoFramesQueue ?s) @ [f]"
    using queue_after_process [of ?s f] snoc.prems m by simp
  also have "\<dots> = drop (length fs - unat queueMaxSize) fs @ [f]"
  proof -
    have "length fs - (length fs - Suc (unat queueMaxSize) + unat queueMaxSize)
            + (length fs - Suc (unat queueMaxSize)) = length fs - unat queueMaxSize"
      by arith
    with snoc show ?thesis by simp
  qed
  also have "\<dots> = drop (length (fs @ [f]) - Suc (unat queueMaxSize)) (fs @ [f])"
    by simp
  finally show ?case by simp
qed

text \<open>
  Claim C10. A relay constructed with capacity 0 never enqueues and never forwards:
  after any run of \<open>process\<close> calls and worker activations the queue is empty and no
  frame was handed downstream.
\<close>

theorem relay_capacity_zero_discards:
  "m_videoFramesQueue (foldl relayStep (newAsynchronousQueue 0) as) = []
   \<and> forwarded (foldl relayStep (newAsynchronousQueue 0) as) = []"
  by (rule relayRun_capacity_zero) (simp_all add: newAsynchronousQueue_def)

text \<open>
  Claim C1, evaluated on the code. Capacity 2, four frames 1, 2, 3, 4 enqueued before the
  worker runs: when frame 3 arrives the queue holds 2 frames, which is not more than 2, so
  nothing is evicted. The queue ends with the three frames 2, 3, 4 and the worker
  forwards all three, not only the two most recent ones.
\<close>

theorem relay_capacity_two_keeps_three:
  "m_videoFramesQueue (foldl process (newAsynchronousQueue 2) [1, 2, 3, 4 :: nat]) = [2, 3, 4]
   \<and> m_videoFramesQueue (foldl process (newAsynchronousQueue 2) [1, 2, 3 :: nat]) = [1, 2, 3]
   \<and> forwarded (snd (waitForNewVideoFrame
        (foldl process (newAsynchronousQueue 2) [1, 2, 3, 4 :: nat]))) = [2, 3, 4]"
  by code_simp

text \<open>
  Claim C2, evaluated on the code. Capacity 1, frames 1, 2, 3 enqueued before the worker
  dequeues any: the worker forwards frame 2 and then frame 3.
\<close>

theorem relay_capacity_one_forwards_two:
  "waitForNewVideoFrame (process (process (process (newAsynchronousQueue 1) (1::nat)) 2) 3) =
     (Waiting, \<lparr>m_runningState = True, m_startedState = True, m_videoFramesQueue = [],
                m_queueMaxSize = 1, forwarded = [2, 3]\<rparr>)"
  by code_simp

text \<open>
  Claim C8, evaluated on the code. A relay of capacity 1 has taken one frame and its
  worker has forwarded it and waits on the empty queue. Shutdown is then requested: the
  running flag is cleared, but the wait predicate is still false, the worker stays in
  the wait and the destructor's join does not return.
\<close>

theorem relay_shutdown_on_empty_queue_blocks:
  "waitPredicate
     ((snd (waitForNewVideoFrame (process (newAsynchronousQueue 1) (1::nat))))
        \<lparr>m_runningState := False\<rparr>) = False
   \<and> destroyAsynchronousQueue
       (snd (waitForNewVideoFrame (process (newAsynchronousQueue 1) (1::nat)))) = None"
  by code_simp

end
